theory Spec2Isabelle
  imports Main "HOL-Library.Sublist" "HOL-Library.Multiset"
begin

section \<open>Strings and arrays of the host language\<close>

text \<open>
  Strings are character lists. \<open>startsWith\<close> and \<open>substring\<close> are the string
  methods the program calls, \<open>some\<close> is the array method: it stops at the first element
  whose callback returns true.
\<close>

definition startsWith :: "string \<Rightarrow> string \<Rightarrow> bool" where
  "startsWith s p = (take (length p) s = p)"

definition substring :: "string \<Rightarrow> nat \<Rightarrow> string" where
  "substring s n = drop n s"

primrec some :: "('a \<Rightarrow> bool) \<Rightarrow> 'a list \<Rightarrow> bool" where
  "some f [] = False"
| "some f (x # xs) = (if f x then True else some f xs)"

abbreviation LF :: char where "LF \<equiv> CHR 0x0A"
abbreviation CR :: char where "CR \<equiv> CHR 0x0D"

text \<open>
  \<open>content.split(/\r?\n/)\<close>: the separator is matched from the left, so a carriage return
  directly before a line feed belongs to the separator, and any other carriage return
  stays in its line. The result of splitting the empty string is one empty line.
\<close>

fun split_lines :: "string \<Rightarrow> string list" where
  "split_lines [] = [[]]"
| "split_lines (c # cs) =
     (if c = LF then [] # split_lines cs
      else if c = CR \<and> take 1 cs = [LF] then [] # split_lines (drop 1 cs)
      else (case split_lines cs of
              [] \<Rightarrow> [[c]]
            | l # ls \<Rightarrow> (c # l) # ls))"

section \<open>The regular expression engine\<close>

text \<open>
  \<open>new RegExp(pattern)\<close> either throws a syntax error or yields an expression whose
  \<open>test\<close> (no flags, hence no state) is a predicate on strings. The engine belongs to the
  runtime, not to the program, so the program is modelled over any engine: a function
  from the pattern to \<open>None\<close> when compilation throws, to the test predicate otherwise.
\<close>

type_synonym regexp = "string \<Rightarrow> bool"
type_synonym engine = "string \<Rightarrow> regexp option"

text \<open>
  One concrete engine, for evaluating the program on examples: a pattern made of
  letters, digits, \<open>/\<close>, \<open>_\<close> and \<open>-\<close> only has no metacharacter and matches exactly where it
  occurs as a substring. Every other pattern is rejected here, as the runtime rejects
  \<open>[\<close> or \<open>(\<close>.
\<close>

definition plain_char :: "char \<Rightarrow> bool" where
  "plain_char c = (c \<in> set ''abcdefghijklmnopqrstuvwxyzABCDEFGHIJKLMNOPQRSTUVWXYZ0123456789/_-'')"

fun occurs_in :: "string \<Rightarrow> string \<Rightarrow> bool" where
  "occurs_in [] p = (p = [])"
| "occurs_in (c # cs) p = (startsWith (c # cs) p \<or> occurs_in cs p)"

definition literal_engine :: engine where
  "literal_engine pattern =
     (if list_all plain_char pattern then Some (\<lambda>s. occurs_in s pattern) else None)"

section \<open>The ignore rules\<close>

text \<open>
  \<open>readGitignore\<close>: the argument is the content of \<open>.gitignore\<close> in the target directory,
  \<open>None\<close> when \<open>existsSync\<close> says there is no such file.
\<close>

definition readGitignore :: "string option \<Rightarrow> string list" where
  "readGitignore gitignore =
     (case gitignore of
        Some gitignoreContent \<Rightarrow>
          map (\<lambda>line. if startsWith line ''/'' then substring line 1 else line)
            (filter (\<lambda>line. line \<noteq> [] \<and> \<not> startsWith line ''#'')
               (split_lines gitignoreContent))
      | None \<Rightarrow> [])"

text \<open>The pattern set that \<open>main\<close> builds: the ignore file's patterns, then \<open>--exclude\<close>'s.\<close>

definition ignorePatterns :: "string option \<Rightarrow> string list \<Rightarrow> string list" where
  "ignorePatterns gitignore excludePatterns = readGitignore gitignore @ excludePatterns"

definition shouldIgnore :: "engine \<Rightarrow> string \<Rightarrow> string list \<Rightarrow> bool" where
  "shouldIgnore RegExp filePath patterns =
     some (\<lambda>pattern.
        if filePath = pattern \<or> startsWith filePath pattern then True
        else (case RegExp pattern of
                Some regex \<Rightarrow> regex filePath
              | None \<Rightarrow> False)) patterns"

section \<open>Paths\<close>

text \<open>
  A resolved path is the list of its components. \<open>path_join\<close> is \<open>path.join\<close> of a
  directory and one of the names \<open>readdir\<close> returned for it. \<open>path_relative\<close> is
  \<open>path.relative\<close>: it drops the components both paths share, climbs out of what is left
  of the first path with \<open>..\<close> and descends along what is left of the second, the
  components separated by \<open>/\<close>.
\<close>

type_synonym path = "string list"

definition path_join :: "path \<Rightarrow> string \<Rightarrow> path" where
  "path_join dir file = dir @ [file]"

fun strip_common :: "path \<Rightarrow> path \<Rightarrow> path \<times> path" where
  "strip_common (x # xs) (y # ys) = (if x = y then strip_common xs ys else (x # xs, y # ys))"
| "strip_common xs ys = (xs, ys)"

fun join_sep :: "string list \<Rightarrow> string" where
  "join_sep [] = []"
| "join_sep [x] = x"
| "join_sep (x # y # ys) = x @ ''/'' @ join_sep (y # ys)"

definition path_relative :: "path \<Rightarrow> path \<Rightarrow> string" where
  "path_relative from to =
     (case strip_common from to of
        (up, down) \<Rightarrow> join_sep (replicate (length up) ''..'' @ down))"

section \<open>The file system\<close>

text \<open>
  The file system below a directory is a finite tree. A node is what \<open>stat\<close> and
  \<open>readdir\<close> answer for a path: a file (anything \<open>stat\<close> does not report as a directory),
  a directory with its entries in the order \<open>readdir\<close> returns them, a directory whose
  listing cannot be read, or a path whose metadata cannot be read. A value of this
  type has no cycle, so links that lead back into the tree are outside the model.
\<close>

datatype error = ENOTDIR | ENOENT | EACCES | EIO

datatype fsnode =
    File
  | Dir "(string \<times> fsnode) list"
  | Unreadable error
  | Broken error

fun stat :: "fsnode \<Rightarrow> error + bool" where
  "stat File = Inr False"
| "stat (Dir entries) = Inr True"
| "stat (Unreadable err) = Inr True"
| "stat (Broken err) = Inl err"

fun readdir :: "fsnode \<Rightarrow> error + (string \<times> fsnode) list" where
  "readdir File = Inl ENOTDIR"
| "readdir (Dir entries) = Inr entries"
| "readdir (Unreadable err) = Inl err"
| "readdir (Broken err) = Inl err"

lemma readdir_size:
  "readdir node = Inr list \<Longrightarrow> size_list (size_prod (\<lambda>_. 0) size) list < size node"
  by (cases node) auto

section \<open>The walkers\<close>

text \<open>
  \<open>listFiles\<close> and \<open>generateTree\<close> take the node found at \<open>dir\<close> next to the path
  itself. Each is the function's prologue; the \<open>for\<close> loop over the directory listing is
  the \<open>_loop\<close> function, which carries the accumulator (\<open>results\<close>, \<open>tree\<close>) and the
  entries still to come, every name paired with the node \<open>stat\<close> will look at. A rejected
  promise is \<open>Inl\<close> of the error.
\<close>

function listFiles :: "engine \<Rightarrow> fsnode \<Rightarrow> path \<Rightarrow> path \<Rightarrow> string list \<Rightarrow> error + string list"
  and listFiles_loop :: "engine \<Rightarrow> path \<Rightarrow> path \<Rightarrow> string list \<Rightarrow> string list \<Rightarrow>
    (string \<times> fsnode) list \<Rightarrow> error + string list"
  where
  "listFiles RegExp fs dir baseDir patterns =
     (case readdir fs of
        Inl err \<Rightarrow> Inl err
      | Inr list \<Rightarrow> listFiles_loop RegExp dir baseDir patterns [] list)"
| "listFiles_loop RegExp dir baseDir patterns results [] = Inr results"
| "listFiles_loop RegExp dir baseDir patterns results ((file, node) # list) =
     (if startsWith file ''.'' then listFiles_loop RegExp dir baseDir patterns results list
      else
        let filePath = path_join dir file;
            relativePath = path_relative baseDir filePath
        in
          if shouldIgnore RegExp relativePath patterns
          then listFiles_loop RegExp dir baseDir patterns results list
          else
            (case stat node of
               Inl err \<Rightarrow> Inl err
             | Inr isDirectory \<Rightarrow>
                 if isDirectory then
                   (case listFiles RegExp node filePath baseDir patterns of
                      Inl err \<Rightarrow> Inl err
                    | Inr sub \<Rightarrow>
                        listFiles_loop RegExp dir baseDir patterns (results @ sub) list)
                 else listFiles_loop RegExp dir baseDir patterns (results @ [relativePath]) list))"
  by pat_completeness auto
termination
  by (relation "measure (\<lambda>x. case x of
        Inl (RegExp, fs, dir, baseDir, patterns) \<Rightarrow> size fs
      | Inr (RegExp, dir, baseDir, patterns, results, list) \<Rightarrow>
          size_list (size_prod (\<lambda>_. 0) size) list)")
    (auto simp: readdir_size)

definition repeat :: "string \<Rightarrow> nat \<Rightarrow> string" where
  "repeat s n = concat (replicate n s)"

function generateTree :: "engine \<Rightarrow> fsnode \<Rightarrow> path \<Rightarrow> nat \<Rightarrow> path \<Rightarrow> string list \<Rightarrow> error + string"
  and generateTree_loop :: "engine \<Rightarrow> path \<Rightarrow> nat \<Rightarrow> path \<Rightarrow> string list \<Rightarrow> string \<Rightarrow>
    (string \<times> fsnode) list \<Rightarrow> error + string"
  where
  "generateTree RegExp fs dir depth baseDir patterns =
     (case readdir fs of
        Inl err \<Rightarrow> Inl err
      | Inr list \<Rightarrow> generateTree_loop RegExp dir depth baseDir patterns [] list)"
| "generateTree_loop RegExp dir depth baseDir patterns tree [] = Inr tree"
| "generateTree_loop RegExp dir depth baseDir patterns tree ((file, node) # list) =
     (if startsWith file ''.'' then generateTree_loop RegExp dir depth baseDir patterns tree list
      else
        let filePath = path_join dir file;
            relativePath = path_relative baseDir filePath
        in
          if shouldIgnore RegExp relativePath patterns
          then generateTree_loop RegExp dir depth baseDir patterns tree list
          else
            (case stat node of
               Inl err \<Rightarrow> Inl err
             | Inr isDirectory \<Rightarrow>
                 let tree' = tree @ repeat ''  '' depth @ ''- '' @ file @ [LF]
                 in
                   if isDirectory then
                     (case generateTree RegExp node filePath (depth + 1) baseDir patterns of
                        Inl err \<Rightarrow> Inl err
                      | Inr sub \<Rightarrow>
                          generateTree_loop RegExp dir depth baseDir patterns (tree' @ sub) list)
                   else generateTree_loop RegExp dir depth baseDir patterns tree' list))"
  by pat_completeness auto
termination
  by (relation "measure (\<lambda>x. case x of
        Inl (RegExp, fs, dir, depth, baseDir, patterns) \<Rightarrow> size fs
      | Inr (RegExp, dir, depth, baseDir, patterns, tree, list) \<Rightarrow>
          size_list (size_prod (\<lambda>_. 0) size) list)")
    (auto simp: readdir_size)

section \<open>Reference notions\<close>

text \<open>
  What the ignore file means line by line: an empty line and a line that begins with
  \<open>#\<close> give no pattern; a line that begins with \<open>/\<close> gives the rest of the line; any
  other line gives itself.
\<close>

fun retained_pattern :: "string \<Rightarrow> string option" where
  "retained_pattern [] = None"
| "retained_pattern (c # cs) =
     (if c = CHR ''#'' then None else if c = CHR ''/'' then Some cs else Some (c # cs))"

text \<open>
  A text file written line by line: every line but the last is followed by its own
  line break, a line feed alone or a carriage return and a line feed. A line is
  \<open>well_terminated\<close> when it holds no line feed and, if a bare line feed follows it, does
  not end in a carriage return (that carriage return would be read as part of the
  line break).
\<close>

definition join_lines :: "(string \<times> bool) list \<Rightarrow> string \<Rightarrow> string" where
  "join_lines segs lastl =
     concat (map (\<lambda>(l, crlf). l @ (if crlf then [CR, LF] else [LF])) segs) @ lastl"

definition well_terminated :: "string \<times> bool \<Rightarrow> bool" where
  "well_terminated seg =
     (case seg of (l, crlf) \<Rightarrow> LF \<notin> set l \<and> (crlf \<or> l = [] \<or> last l \<noteq> CR))"

text \<open>
  An entry of a directory survives when its name does not begin with a dot and its
  path relative to the root is not ignored.
\<close>

definition survives :: "engine \<Rightarrow> path \<Rightarrow> path \<Rightarrow> string list \<Rightarrow> string \<Rightarrow> bool" where
  "survives RegExp dir baseDir patterns file =
     (\<not> startsWith file ''.'' \<and>
      \<not> shouldIgnore RegExp (path_relative baseDir (path_join dir file)) patterns)"

text \<open>
  The traversal as a sequence of visits: the surviving entries of a directory in the
  order of its listing, each directory followed at once by the visits of its own
  entries, one level deeper. Nothing below an entry that does not survive is visited.
\<close>

record visit =
  v_depth :: nat
  v_file :: string
  v_filePath :: path
  v_isDirectory :: bool

fun walk :: "engine \<Rightarrow> path \<Rightarrow> nat \<Rightarrow> path \<Rightarrow> string list \<Rightarrow> (string \<times> fsnode) list \<Rightarrow> visit list" where
  "walk RegExp dir depth baseDir patterns [] = []"
| "walk RegExp dir depth baseDir patterns ((file, node) # list) =
     (if survives RegExp dir baseDir patterns file then
        \<lparr>v_depth = depth, v_file = file, v_filePath = path_join dir file,
         v_isDirectory = (node \<noteq> File)\<rparr> #
        (case node of
           Dir entries \<Rightarrow> walk RegExp (path_join dir file) (depth + 1) baseDir patterns entries
         | _ \<Rightarrow> [])
      else []) @ walk RegExp dir depth baseDir patterns list"

text \<open>The line of a visit in the tree rendering, and the files of a walk as the listing shows them.\<close>

definition render :: "visit \<Rightarrow> string" where
  "render v = replicate (2 * v_depth v) (CHR '' '') @ ''- '' @ v_file v @ [LF]"

definition listed :: "path \<Rightarrow> visit list \<Rightarrow> string list" where
  "listed baseDir W =
     map (\<lambda>v. path_relative baseDir (v_filePath v)) (filter (\<lambda>v. \<not> v_isDirectory v) W)"

text \<open>
  The first file system operation that fails on the way: the metadata of a surviving
  entry, or the listing of a surviving directory. Entries that do not survive are
  never asked for either.
\<close>

fun first_failure :: "engine \<Rightarrow> path \<Rightarrow> path \<Rightarrow> string list \<Rightarrow> (string \<times> fsnode) list \<Rightarrow> error option" where
  "first_failure RegExp dir baseDir patterns [] = None"
| "first_failure RegExp dir baseDir patterns ((file, node) # list) =
     (if survives RegExp dir baseDir patterns file then
        (case node of
           File \<Rightarrow> first_failure RegExp dir baseDir patterns list
         | Dir entries \<Rightarrow>
             (case first_failure RegExp (path_join dir file) baseDir patterns entries of
                Some err \<Rightarrow> Some err
              | None \<Rightarrow> first_failure RegExp dir baseDir patterns list)
         | Unreadable err \<Rightarrow> Some err
         | Broken err \<Rightarrow> Some err)
      else first_failure RegExp dir baseDir patterns list)"

text \<open>
  A directory listing with some entries removed, at every level: \<open>keep dir file\<close> decides
  for the entry \<open>file\<close> of the directory \<open>dir\<close>. \<open>without_ignored\<close> removes every entry
  whose relative path is ignored, \<open>without_hidden\<close> every entry whose name begins with a
  dot, each together with all that lies below it.
\<close>

fun prune :: "(path \<Rightarrow> string \<Rightarrow> bool) \<Rightarrow> path \<Rightarrow> (string \<times> fsnode) list \<Rightarrow> (string \<times> fsnode) list" where
  "prune keep dir [] = []"
| "prune keep dir ((file, node) # list) =
     (if keep dir file then
        [(file, case node of
                  Dir entries \<Rightarrow> Dir (prune keep (path_join dir file) entries)
                | _ \<Rightarrow> node)]
      else []) @ prune keep dir list"

definition without_ignored :: "engine \<Rightarrow> path \<Rightarrow> string list \<Rightarrow> path \<Rightarrow> (string \<times> fsnode) list \<Rightarrow> (string \<times> fsnode) list" where
  "without_ignored RegExp baseDir patterns dir list =
     prune (\<lambda>dir file. \<not> shouldIgnore RegExp (path_relative baseDir (path_join dir file)) patterns)
       dir list"

definition without_hidden :: "path \<Rightarrow> (string \<times> fsnode) list \<Rightarrow> (string \<times> fsnode) list" where
  "without_hidden dir list = prune (\<lambda>dir file. \<not> startsWith file ''.'') dir list"

text \<open>
  What every directory listing satisfies: the names are not empty, hold no separator
  and do not repeat within one directory.
\<close>

fun wf_entries :: "(string \<times> fsnode) list \<Rightarrow> bool" where
  "wf_entries [] = True"
| "wf_entries ((file, node) # list) =
     (file \<noteq> [] \<and> CHR ''/'' \<notin> set file \<and> file \<notin> fst ` set list \<and>
      (case node of Dir entries \<Rightarrow> wf_entries entries | _ \<Rightarrow> True) \<and>
      wf_entries list)"

text \<open>
  In a sequence of visits, the visit after a file is never deeper than the file: the
  line of a file has nothing below it.
\<close>

fun leaf_lines :: "visit list \<Rightarrow> bool" where
  "leaf_lines (a # b # rest) =
     ((v_isDirectory a \<or> v_depth b \<le> v_depth a) \<and> leaf_lines (b # rest))"
| "leaf_lines _ = True"

definition slash_free :: "string list \<Rightarrow> bool" where
  "slash_free comps = (\<forall>c\<in>set comps. CHR ''/'' \<notin> set c)"

section \<open>An example tree\<close>

text \<open>
  A project directory with a repository directory, a source directory that holds one
  file and one hidden file, and a directory of dependencies. \<open>damaged\<close> is the same
  listing followed by an entry whose metadata cannot be read.
\<close>

definition scenario :: "(string \<times> fsnode) list" where
  "scenario =
     [(''.git'', Dir [(''config'', File)]),
      (''src'', Dir [(''a.txt'', File), (''.hidden'', File)]),
      (''node_modules'', Dir [(''x.js'', File)])]"

text \<open>
  \<open>sealed\<close> is the same project where nothing can be read in the repository directory,
  in the hidden file and in the directory of dependencies.
\<close>

definition sealed :: "(string \<times> fsnode) list" where
  "sealed =
     [(''.git'', Unreadable EACCES),
      (''src'', Dir [(''a.txt'', File), (''.hidden'', Broken EIO)]),
      (''node_modules'', Broken EIO)]"

definition damaged :: "(string \<times> fsnode) list" where
  "damaged = scenario @ [(''tmp'', Broken EACCES)]"

section \<open>Facts about the ignore rules\<close>

lemma startsWith_prefix: "startsWith s p \<longleftrightarrow> prefix p s"
  unfolding startsWith_def prefix_def
  by (metis append_eq_conv_conj append_take_drop_id)

lemma some_set: "some f xs \<longleftrightarrow> (\<exists>x\<in>set xs. f x)"
  by (induction xs) auto

lemma pattern_matches_iff:
  "(if P = p \<or> startsWith P p then True
    else (case RegExp p of Some regex \<Rightarrow> regex P | None \<Rightarrow> False)) \<longleftrightarrow>
   (P = p \<or> prefix p P \<or> (\<exists>regex. RegExp p = Some regex \<and> regex P))"
  by (cases "RegExp p") (auto simp: startsWith_prefix)

lemma shouldIgnore_set:
  "shouldIgnore RegExp P S \<longleftrightarrow>
     (\<exists>p\<in>set S. P = p \<or> prefix p P \<or> (\<exists>regex. RegExp p = Some regex \<and> regex P))"
  unfolding shouldIgnore_def some_set pattern_matches_iff ..

text \<open>
  C1. \<open>shouldIgnore\<close> is true exactly when some pattern equals the path, or is a literal
  prefix of it, or compiles to a regular expression that matches within the path. A
  pattern that does not compile is tried as a literal only; the result is a boolean in
  every case.
\<close>

theorem shouldIgnore_iff:
  "(shouldIgnore RegExp P S \<longleftrightarrow>
      (\<exists>p\<in>set S. P = p \<or> prefix p P \<or> (\<exists>regex. RegExp p = Some regex \<and> regex P)))
   \<and> (RegExp q = None \<longrightarrow> (shouldIgnore RegExp P [q] \<longleftrightarrow> P = q \<or> prefix q P))"
  by (simp add: shouldIgnore_set)

theorem shouldIgnore_iff_witness:
  "literal_engine ''['' = None
   \<and> shouldIgnore literal_engine ''build/out.txt'' [''['', ''build'']
   \<and> (\<exists>p\<in>set [''['', ''build'']. prefix p ''build/out.txt'')
   \<and> \<not> shouldIgnore literal_engine ''build/out.txt'' [''['']"
  using shouldIgnore_iff [of literal_engine "''build/out.txt''" "[''['', ''build'']" "''[''"]
  by (simp add: literal_engine_def plain_char_def)

text \<open>
  C8. The order of the patterns does not change the answer of \<open>shouldIgnore\<close>: two
  pattern lists with the same elements, each as often, give the same boolean, although
  \<open>some\<close> stops at the first pattern that matches.
\<close>

theorem shouldIgnore_permutation:
  "mset S' = mset S \<Longrightarrow> shouldIgnore RegExp P S' = shouldIgnore RegExp P S"
proof -
  assume "mset S' = mset S"
  then have "set S' = set S" by (rule mset_eq_setD)
  then show ?thesis by (simp add: shouldIgnore_set)
qed

theorem shouldIgnore_permutation_witness:
  "mset [''lib'', ''src'', ''[''] = mset [''['', ''src'', ''lib'']
   \<and> shouldIgnore literal_engine ''src/a.txt'' [''lib'', ''src'', ''['']
   \<and> shouldIgnore literal_engine ''src/a.txt'' [''['', ''src'', ''lib'']"
proof -
  have m: "mset [''lib'', ''src'', ''[''] = mset [''['', ''src'', ''lib'']" by simp
  have "shouldIgnore literal_engine ''src/a.txt'' [''lib'', ''src'', ''['']"
    by (simp add: shouldIgnore_def startsWith_def literal_engine_def plain_char_def)
  with m shouldIgnore_permutation [OF m, of literal_engine "''src/a.txt''"]
  show ?thesis by simp
qed

section \<open>Facts about reading the ignore file\<close>

lemma split_lines_last: "LF \<notin> set l \<Longrightarrow> split_lines l = [l]"
proof (induction l)
  case Nil
  then show ?case by simp
next
  case (Cons c l)
  then have "take 1 l \<noteq> [LF]"
    by (cases l) auto
  with Cons show ?case by auto
qed

lemma split_lines_seg:
  "LF \<notin> set l \<Longrightarrow> crlf \<or> l = [] \<or> last l \<noteq> CR \<Longrightarrow>
   split_lines (l @ (if crlf then [CR, LF] else [LF]) @ rest) = l # split_lines rest"
proof (induction l)
  case Nil
  then show ?case by simp
next
  case (Cons c l)
  have c: "c \<noteq> LF" using Cons.prems(1) by auto
  have nolf: "LF \<notin> set l" using Cons.prems(1) by auto
  have tl: "crlf \<or> l = [] \<or> last l \<noteq> CR"
    using Cons.prems(2) by (cases l) auto
  have IH: "split_lines (l @ (if crlf then [CR, LF] else [LF]) @ rest) = l # split_lines rest"
    using Cons.IH [OF nolf tl] .
  have sep: "\<not> (c = CR \<and> take 1 (l @ (if crlf then [CR, LF] else [LF]) @ rest) = [LF])"
  proof (cases l)
    case Nil
    then show ?thesis using Cons.prems(2) by auto
  next
    case (Cons d l')
    then show ?thesis using nolf by auto
  qed
  show ?case using c sep IH by simp
qed

lemma split_lines_join:
  "list_all well_terminated segs \<Longrightarrow> LF \<notin> set lastl \<Longrightarrow>
   split_lines (join_lines segs lastl) = map fst segs @ [lastl]"
proof (induction segs)
  case Nil
  then show ?case by (simp add: join_lines_def split_lines_last)
next
  case (Cons seg segs)
  obtain l crlf where seg: "seg = (l, crlf)" by (cases seg)
  have wt: "LF \<notin> set l" "crlf \<or> l = [] \<or> last l \<noteq> CR"
    using Cons.prems(1) by (auto simp: seg well_terminated_def)
  have "join_lines (seg # segs) lastl = l @ (if crlf then [CR, LF] else [LF]) @ join_lines segs lastl"
    by (simp add: join_lines_def seg)
  then show ?case
    using split_lines_seg [OF wt] Cons by (simp add: seg)
qed

lemma retained_pattern_line:
  "retained_pattern line =
     (if line \<noteq> [] \<and> \<not> startsWith line ''#''
      then Some (if startsWith line ''/'' then substring line 1 else line) else None)"
  by (cases line) (auto simp: startsWith_def substring_def)

lemma readGitignore_lines:
  "readGitignore (Some content) = List.map_filter retained_pattern (split_lines content)"
proof -
  have "map (\<lambda>line. if startsWith line ''/'' then substring line 1 else line)
          (filter (\<lambda>line. line \<noteq> [] \<and> \<not> startsWith line ''#'') ls)
        = List.map_filter retained_pattern ls" for ls
    by (induction ls) (simp_all add: List.map_filter_simps retained_pattern_line)
  then show ?thesis by (simp add: readGitignore_def)
qed

text \<open>
  C4. The pattern set is built from the ignore file's text by splitting it at line
  breaks (a line feed, alone or after a carriage return), dropping the empty lines and
  the lines that begin with \<open>#\<close>, removing one leading \<open>/\<close> where there is one, and
  appending the caller's exclusion patterns unchanged and in order. Without an ignore
  file the pattern set is the caller's patterns.
\<close>

theorem ignorePatterns_parse:
  "(list_all well_terminated segs \<and> LF \<notin> set lastl \<longrightarrow>
      ignorePatterns (Some (join_lines segs lastl)) excludePatterns =
        List.map_filter retained_pattern (map fst segs @ [lastl]) @ excludePatterns)
   \<and> ignorePatterns None excludePatterns = excludePatterns"
  by (simp add: ignorePatterns_def readGitignore_lines split_lines_join)
    (simp add: readGitignore_def)

theorem ignorePatterns_parse_witness:
  "list_all well_terminated
     [(''/build'', True), (''# note'', False), ([], False), (''//x'', False)]
   \<and> LF \<notin> set ''node_modules''
   \<and> ignorePatterns
         (Some (join_lines [(''/build'', True), (''# note'', False), ([], False), (''//x'', False)]
            ''node_modules'')) [''dist'']
       = [''build'', ''/x'', ''node_modules'', ''dist'']"
  using ignorePatterns_parse
    [of "[(''/build'', True), (''# note'', False), ([], False), (''//x'', False)]"
      "''node_modules''" "[''dist'']"]
  by (simp add: well_terminated_def List.map_filter_simps)

section \<open>The walkers, step by step\<close>

declare listFiles_loop.simps(2) [simp del] generateTree_loop.simps(2) [simp del]

lemma repeat_spaces: "repeat ''  '' n = replicate (2 * n) (CHR '' '')"
  by (induction n) (simp_all add: repeat_def)


lemma survives_iff:
  "survives RegExp dir baseDir S name \<longleftrightarrow>
     \<not> startsWith name ''.'' \<and>
     \<not> shouldIgnore RegExp (path_relative baseDir (path_join dir name)) S"
  by (simp add: survives_def)

lemma listFiles_loop_skip:
  "\<not> survives RegExp dir baseDir S name \<Longrightarrow>
   listFiles_loop RegExp dir baseDir S results ((name, node) # list) =
     listFiles_loop RegExp dir baseDir S results list"
  by (auto simp: survives_iff Let_def listFiles_loop.simps)

lemma listFiles_loop_visit:
  "survives RegExp dir baseDir S name \<Longrightarrow>
   listFiles_loop RegExp dir baseDir S results ((name, node) # list) =
     (case stat node of
        Inl err \<Rightarrow> Inl err
      | Inr isDirectory \<Rightarrow>
          if isDirectory then
            (case listFiles RegExp node (path_join dir name) baseDir S of
               Inl err \<Rightarrow> Inl err
             | Inr sub \<Rightarrow> listFiles_loop RegExp dir baseDir S (results @ sub) list)
          else listFiles_loop RegExp dir baseDir S
                 (results @ [path_relative baseDir (path_join dir name)]) list)"
  by (simp add: survives_iff Let_def listFiles_loop.simps)

lemma generateTree_loop_skip:
  "\<not> survives RegExp dir baseDir S name \<Longrightarrow>
   generateTree_loop RegExp dir depth baseDir S tree ((name, node) # list) =
     generateTree_loop RegExp dir depth baseDir S tree list"
  by (auto simp: survives_iff Let_def generateTree_loop.simps)

lemma generateTree_loop_visit:
  "survives RegExp dir baseDir S name \<Longrightarrow>
   generateTree_loop RegExp dir depth baseDir S tree ((name, node) # list) =
     (case stat node of
        Inl err \<Rightarrow> Inl err
      | Inr isDirectory \<Rightarrow>
          if isDirectory then
            (case generateTree RegExp node (path_join dir name) (Suc depth) baseDir S of
               Inl err \<Rightarrow> Inl err
             | Inr sub \<Rightarrow>
                 generateTree_loop RegExp dir depth baseDir S
                   (tree @ replicate (2 * depth) (CHR '' '') @ ''- '' @ name @ [LF] @ sub) list)
          else generateTree_loop RegExp dir depth baseDir S
                 (tree @ replicate (2 * depth) (CHR '' '') @ ''- '' @ name @ [LF]) list)"
  by (simp add: survives_iff Let_def repeat_spaces generateTree_loop.simps split: sum.splits)

lemma listFiles_loop_walk:
  "listFiles_loop RegExp dir baseDir S results list =
     (case first_failure RegExp dir baseDir S list of
        Some err \<Rightarrow> Inl err
      | None \<Rightarrow> Inr (results @ listed baseDir (walk RegExp dir depth baseDir S list)))"
proof (induction RegExp dir depth baseDir S list arbitrary: results rule: walk.induct)
  case (1 RegExp dir depth baseDir S)
  then show ?case by (simp add: listed_def)
next
  case (2 RegExp dir depth baseDir S name node list)
  show ?case
  proof (cases "survives RegExp dir baseDir S name")
    case False
    then show ?thesis
      using "2.IH"(2) by (simp add: listFiles_loop_skip split: option.splits)
  next
    case True
    show ?thesis
    proof (cases node)
      case File
      then show ?thesis
        using True "2.IH"(2) [of "results @ [path_relative baseDir (path_join dir name)]"]
        by (simp add: listFiles_loop_visit listed_def split: option.splits)
    next
      case (Dir entries)
      then show ?thesis
        using True "2.IH"(1) [OF True Dir, of "[]"] "2.IH"(2)
        by (simp add: listFiles_loop_visit listed_def split: option.splits)
    next
      case (Unreadable err)
      then show ?thesis using True by (simp add: listFiles_loop_visit)
    next
      case (Broken err)
      then show ?thesis using True by (simp add: listFiles_loop_visit)
    qed
  qed
qed

lemma render_visit:
  "render \<lparr>v_depth = d, v_file = name, v_filePath = p, v_isDirectory = b\<rparr> =
     replicate (2 * d) (CHR '' '') @ ''- '' @ name @ [LF]"
  by (simp add: render_def)

lemma generateTree_loop_walk:
  "generateTree_loop RegExp dir depth baseDir S tree list =
     (case first_failure RegExp dir baseDir S list of
        Some err \<Rightarrow> Inl err
      | None \<Rightarrow> Inr (tree @ concat (map render (walk RegExp dir depth baseDir S list))))"
proof (induction RegExp dir depth baseDir S list arbitrary: tree rule: walk.induct)
  case (1 RegExp dir depth baseDir S)
  then show ?case by simp
next
  case (2 RegExp dir depth baseDir S name node list)
  show ?case
  proof (cases "survives RegExp dir baseDir S name")
    case False
    then show ?thesis
      using "2.IH"(2) by (simp add: generateTree_loop_skip split: option.splits)
  next
    case True
    show ?thesis
    proof (cases node)
      case File
      then show ?thesis
        using True "2.IH"(2)
        by (simp add: generateTree_loop_visit render_visit split: option.splits)
    next
      case (Dir entries)
      then show ?thesis
        using True "2.IH"(1) [OF True Dir, of "[]"] "2.IH"(2)
        by (simp add: generateTree_loop_visit render_visit split: option.splits)
    next
      case (Unreadable err)
      then show ?thesis using True by (simp add: generateTree_loop_visit)
    next
      case (Broken err)
      then show ?thesis using True by (simp add: generateTree_loop_visit)
    qed
  qed
qed

section \<open>The example, evaluated\<close>

lemma scenario_listFiles:
  "listFiles literal_engine (Dir scenario) [''proj''] [''proj''] [''node_modules''] = Inr [''src/a.txt'']"
  by (simp add: scenario_def listFiles_loop.simps startsWith_def path_join_def path_relative_def
      shouldIgnore_def literal_engine_def plain_char_def Let_def)

lemma scenario_generateTree:
  "generateTree literal_engine (Dir scenario) [''proj''] 0 [''proj''] [''node_modules'']
     = Inr (''- src'' @ [LF] @ ''  - a.txt'' @ [LF])"
  by (simp add: scenario_def generateTree_loop.simps startsWith_def path_join_def path_relative_def
      shouldIgnore_def literal_engine_def plain_char_def Let_def repeat_def)

section \<open>The empty pattern\<close>

lemma nothing_survives:
  "(\<And>dir name. \<not> survives RegExp dir baseDir S name) \<Longrightarrow>
   walk RegExp dir depth baseDir S list = [] \<and> first_failure RegExp dir baseDir S list = None"
  by (induction list) auto

lemma empty_pattern_shouldIgnore: "[] \<in> set S \<Longrightarrow> shouldIgnore RegExp P S"
  unfolding shouldIgnore_set by (rule bexI [of _ "[]"]) simp_all

text \<open>
  C10. A pattern set that holds the empty string ignores every path, since the empty
  string is a prefix of every string; the line \<open>/\<close> of an ignore file puts the empty
  string into the pattern set. With such a set the listing and the tree rendering of
  any directory are empty.
\<close>

theorem empty_pattern_ignores_everything:
  "(''/'' \<in> set (split_lines content) \<longrightarrow>
      [] \<in> set (ignorePatterns (Some content) excludePatterns))
   \<and> ([] \<in> set S \<longrightarrow>
        shouldIgnore RegExp P S
        \<and> listFiles RegExp (Dir entries) dir baseDir S = Inr []
        \<and> generateTree RegExp (Dir entries) dir depth baseDir S = Inr [])"
proof (intro conjI impI)
  assume "''/'' \<in> set (split_lines content)"
  then have "[] \<in> set (List.map_filter retained_pattern (split_lines content))"
    by (force simp: List.map_filter_def)
  then show "[] \<in> set (ignorePatterns (Some content) excludePatterns)"
    by (simp add: ignorePatterns_def readGitignore_lines)
next
  assume e: "[] \<in> set S"
  then show "shouldIgnore RegExp P S" by (rule empty_pattern_shouldIgnore)
  have none: "\<not> survives RegExp d baseDir S name" for d name
    using empty_pattern_shouldIgnore [OF e] by (simp add: survives_def)
  show "listFiles RegExp (Dir entries) dir baseDir S = Inr []"
    using nothing_survives [of RegExp baseDir S dir 0 entries, OF none]
    by (simp add: listFiles_loop_walk [where depth = 0] listed_def)
  show "generateTree RegExp (Dir entries) dir depth baseDir S = Inr []"
    using nothing_survives [of RegExp baseDir S dir depth entries, OF none]
    by (simp add: generateTree_loop_walk)
qed

theorem empty_pattern_ignores_everything_witness:
  "''/'' \<in> set (split_lines (''build'' @ [LF] @ ''/'' @ [CR, LF]))
   \<and> ignorePatterns (Some (''build'' @ [LF] @ ''/'' @ [CR, LF])) [] = [''build'', []]
   \<and> shouldIgnore literal_engine ''src/a.txt'' [''build'', []]
   \<and> listFiles literal_engine (Dir scenario) [''proj''] [''proj''] [''build'', []] = Inr []
   \<and> generateTree literal_engine (Dir scenario) [''proj''] 0 [''proj''] [''build'', []] = Inr []"
  using empty_pattern_ignores_everything
    [of "''build'' @ [LF] @ ''/'' @ [CR, LF]" "[]" "[''build'', []]" literal_engine
      "''src/a.txt''" scenario "[''proj'']" "[''proj'']" 0]
  by (simp add: ignorePatterns_def readGitignore_def startsWith_def substring_def)

section \<open>The tree rendering\<close>

lemma generateTree_loop_acc:
  "generateTree_loop RegExp dir depth baseDir S tree list =
     (case generateTree_loop RegExp dir depth baseDir S [] list of
        Inl err \<Rightarrow> Inl err
      | Inr rest \<Rightarrow> Inr (tree @ rest))"
  by (simp add: generateTree_loop_walk [of _ _ _ _ _ tree] generateTree_loop_walk [of _ _ _ _ _ "[]"]
      split: option.splits)

text \<open>
  C7. The line \<open>generateTree\<close> appends for a surviving entry at depth \<open>d\<close> is \<open>2 * d\<close> spaces,
  then \<open>- \<close>, then the entry's base name, then a line feed. For a directory the
  rendering of its entries at depth \<open>d + 1\<close> follows at once; the entries still to come
  are appended after that. The whole rendering is the concatenation of these lines
  over the visits of the walk.
\<close>

theorem generateTree_line_format:
  "(survives RegExp dir baseDir S name \<and> stat node = Inr False \<longrightarrow>
      generateTree_loop RegExp dir depth baseDir S tree ((name, node) # list) =
        generateTree_loop RegExp dir depth baseDir S
          (tree @ replicate (2 * depth) (CHR '' '') @ ''- '' @ name @ [LF]) list)
   \<and> (survives RegExp dir baseDir S name \<and> stat node = Inr True \<and>
        generateTree RegExp node (path_join dir name) (Suc depth) baseDir S = Inr sub \<longrightarrow>
      generateTree_loop RegExp dir depth baseDir S tree ((name, node) # list) =
        generateTree_loop RegExp dir depth baseDir S
          (tree @ replicate (2 * depth) (CHR '' '') @ ''- '' @ name @ [LF] @ sub) list)
   \<and> generateTree_loop RegExp dir depth baseDir S tree list =
        (case generateTree_loop RegExp dir depth baseDir S [] list of
           Inl err \<Rightarrow> Inl err
         | Inr rest \<Rightarrow> Inr (tree @ rest))
   \<and> (generateTree RegExp (Dir entries) dir depth baseDir S = Inr text \<longrightarrow>
        text = concat (map (\<lambda>v. replicate (2 * v_depth v) (CHR '' '') @ ''- '' @ v_file v @ [LF])
                 (walk RegExp dir depth baseDir S entries)))"
proof (intro conjI impI)
  show "generateTree_loop RegExp dir depth baseDir S tree list =
        (case generateTree_loop RegExp dir depth baseDir S [] list of
           Inl err \<Rightarrow> Inl err
         | Inr rest \<Rightarrow> Inr (tree @ rest))"
    by (rule generateTree_loop_acc)
next
  assume "generateTree RegExp (Dir entries) dir depth baseDir S = Inr text"
  then show "text = concat (map (\<lambda>v. replicate (2 * v_depth v) (CHR '' '') @ ''- '' @ v_file v @ [LF])
                 (walk RegExp dir depth baseDir S entries))"
    by (auto simp add: generateTree_loop_walk render_def [abs_def] split: option.splits)
qed (simp_all add: generateTree_loop_visit)

theorem generateTree_line_format_witness:
  "survives literal_engine [''proj''] [''proj''] [''node_modules''] ''src''
   \<and> stat (Dir [(''a.txt'', File), (''.hidden'', File)]) = Inr True
   \<and> generateTree literal_engine (Dir [(''a.txt'', File), (''.hidden'', File)])
        (path_join [''proj''] ''src'') (Suc 0) [''proj''] [''node_modules'']
       = Inr (''  - a.txt'' @ [LF])
   \<and> generateTree_loop literal_engine [''proj''] 0 [''proj''] [''node_modules''] []
        [(''src'', Dir [(''a.txt'', File), (''.hidden'', File)]), (''b'', File)]
       = Inr (''- src'' @ [LF] @ ''  - a.txt'' @ [LF] @ ''- b'' @ [LF])"
proof -
  have s: "survives literal_engine [''proj''] [''proj''] [''node_modules''] ''src''"
    by (simp add: survives_def startsWith_def path_join_def path_relative_def
        shouldIgnore_def literal_engine_def plain_char_def)
  have st: "stat (Dir [(''a.txt'', File), (''.hidden'', File)]) = Inr True" by simp
  have sub: "generateTree literal_engine (Dir [(''a.txt'', File), (''.hidden'', File)])
        (path_join [''proj''] ''src'') (Suc 0) [''proj''] [''node_modules'']
       = Inr (''  - a.txt'' @ [LF])"
    by (simp add: generateTree_loop.simps startsWith_def path_join_def path_relative_def
      shouldIgnore_def literal_engine_def plain_char_def Let_def repeat_def)
  have rest: "generateTree_loop literal_engine [''proj''] 0 [''proj''] [''node_modules'']
      (''- src'' @ [LF] @ ''  - a.txt'' @ [LF]) [(''b'', File)]
       = Inr (''- src'' @ [LF] @ ''  - a.txt'' @ [LF] @ ''- b'' @ [LF])"
    by (simp add: generateTree_loop.simps startsWith_def path_join_def path_relative_def
      shouldIgnore_def literal_engine_def plain_char_def Let_def repeat_def)
  from generateTree_line_format
    [of literal_engine "[''proj'']" "[''proj'']" "[''node_modules'']" "''src''"
      "Dir [(''a.txt'', File), (''.hidden'', File)]" 0 "[]" "[(''b'', File)]" "''  - a.txt'' @ [LF]"]
    s st sub rest
  show ?thesis by simp
qed

section \<open>Failing operations\<close>

text \<open>
  C9. When reading a directory or the metadata of a surviving entry fails, \<open>listFiles\<close>
  and \<open>generateTree\<close> return that error and nothing else: the error of the listing of
  the directory itself, of the metadata of an entry (whatever was collected before it
  and whatever comes after it), or of a subdirectory's traversal. The result of a
  whole traversal is the first failure on the way, and a value when there is none.
\<close>

theorem traversal_failure_aborts:
  "(readdir fs = Inl err \<longrightarrow>
      listFiles RegExp fs dir baseDir S = Inl err
      \<and> generateTree RegExp fs dir depth baseDir S = Inl err)
   \<and> (survives RegExp dir baseDir S name \<and> stat node = Inl err \<longrightarrow>
      listFiles_loop RegExp dir baseDir S results ((name, node) # list) = Inl err
      \<and> generateTree_loop RegExp dir depth baseDir S tree ((name, node) # list) = Inl err)
   \<and> (survives RegExp dir baseDir S name \<and> stat node = Inr True \<and>
        listFiles RegExp node (path_join dir name) baseDir S = Inl err \<longrightarrow>
      listFiles_loop RegExp dir baseDir S results ((name, node) # list) = Inl err)
   \<and> (survives RegExp dir baseDir S name \<and> stat node = Inr True \<and>
        generateTree RegExp node (path_join dir name) (Suc depth) baseDir S = Inl err \<longrightarrow>
      generateTree_loop RegExp dir depth baseDir S tree ((name, node) # list) = Inl err)
   \<and> (first_failure RegExp dir baseDir S entries = Some err \<longrightarrow>
      listFiles RegExp (Dir entries) dir baseDir S = Inl err
      \<and> generateTree RegExp (Dir entries) dir depth baseDir S = Inl err)
   \<and> (first_failure RegExp dir baseDir S entries = None \<longrightarrow>
      (\<exists>files. listFiles RegExp (Dir entries) dir baseDir S = Inr files)
      \<and> (\<exists>text. generateTree RegExp (Dir entries) dir depth baseDir S = Inr text))"
proof (intro conjI impI)
  assume "first_failure RegExp dir baseDir S entries = Some err"
  then show "listFiles RegExp (Dir entries) dir baseDir S = Inl err"
    and "generateTree RegExp (Dir entries) dir depth baseDir S = Inl err"
    by (simp_all add: listFiles_loop_walk [where depth = depth] generateTree_loop_walk)
next
  assume "first_failure RegExp dir baseDir S entries = None"
  then show "\<exists>files. listFiles RegExp (Dir entries) dir baseDir S = Inr files"
    and "\<exists>text. generateTree RegExp (Dir entries) dir depth baseDir S = Inr text"
    by (simp_all add: listFiles_loop_walk [where depth = depth] generateTree_loop_walk)
qed (simp_all add: listFiles_loop_visit generateTree_loop_visit)

theorem traversal_failure_aborts_witness:
  "readdir (Unreadable EACCES) = Inl EACCES
   \<and> listFiles literal_engine (Unreadable EACCES) [''proj''] [''proj''] [''node_modules''] = Inl EACCES
   \<and> survives literal_engine [''proj''] [''proj''] [''node_modules''] ''tmp''
   \<and> stat (Broken EACCES) = Inl EACCES
   \<and> listFiles_loop literal_engine [''proj''] [''proj''] [''node_modules''] [''src/a.txt'']
        [(''tmp'', Broken EACCES)] = Inl EACCES
   \<and> first_failure literal_engine [''proj''] [''proj''] [''node_modules''] damaged = Some EACCES
   \<and> listFiles literal_engine (Dir damaged) [''proj''] [''proj''] [''node_modules''] = Inl EACCES
   \<and> generateTree literal_engine (Dir damaged) [''proj''] 0 [''proj''] [''node_modules''] = Inl EACCES
   \<and> first_failure literal_engine [''proj''] [''proj''] [''node_modules''] scenario = None
   \<and> listFiles literal_engine (Dir scenario) [''proj''] [''proj''] [''node_modules''] = Inr [''src/a.txt'']"
proof -
  have s: "survives literal_engine [''proj''] [''proj''] [''node_modules''] ''tmp''"
    by (simp add: survives_def startsWith_def path_join_def path_relative_def
        shouldIgnore_def literal_engine_def plain_char_def)
  have f: "first_failure literal_engine [''proj''] [''proj''] [''node_modules''] damaged = Some EACCES"
    by (simp add: damaged_def scenario_def survives_def startsWith_def path_join_def
        path_relative_def shouldIgnore_def literal_engine_def plain_char_def)
  have n: "first_failure literal_engine [''proj''] [''proj''] [''node_modules''] scenario = None"
    by (simp add: scenario_def survives_def startsWith_def path_join_def
        path_relative_def shouldIgnore_def literal_engine_def plain_char_def)
  from traversal_failure_aborts
    [of "Unreadable EACCES" EACCES literal_engine "[''proj'']" "[''proj'']" "[''node_modules'']" 0
      "''tmp''" "Broken EACCES" "[''src/a.txt'']" "[]" "[]" damaged] s f
    traversal_failure_aborts
    [of "Unreadable EACCES" EACCES literal_engine "[''proj'']" "[''proj'']" "[''node_modules'']" 0
      "''tmp''" "Broken EACCES" "[''src/a.txt'']" "[]" "[]" scenario] n scenario_listFiles
  show ?thesis by simp
qed

section \<open>Removing what does not survive\<close>

lemma prune_walk:
  assumes keep: "\<And>d n. survives RegExp d baseDir S n \<Longrightarrow> keep d n"
  shows "walk RegExp dir depth baseDir S (prune keep dir list) = walk RegExp dir depth baseDir S list
    \<and> first_failure RegExp dir baseDir S (prune keep dir list) = first_failure RegExp dir baseDir S list"
  using keep
proof (induction RegExp dir depth baseDir S list rule: walk.induct)
  case (1 RegExp dir depth baseDir S)
  then show ?case by simp
next
  case (2 RegExp dir depth baseDir S name node list)
  show ?case
  proof (cases "survives RegExp dir baseDir S name")
    case False
    then show ?thesis using "2.IH"(2) "2.prems" by simp
  next
    case True
    then have k: "keep dir name" by (rule "2.prems")
    show ?thesis
    proof (cases node)
      case (Dir entries)
      then show ?thesis
        using True k "2.IH"(1) [OF True Dir "2.prems"] "2.IH"(2) [OF "2.prems"]
        by (simp split: option.splits)
    qed (use True k "2.IH"(2) [OF "2.prems"] in simp_all)
  qed
qed

lemma prune_listFiles:
  assumes keep: "\<And>d n. survives RegExp d baseDir S n \<Longrightarrow> keep d n"
  shows "listFiles RegExp (Dir (prune keep dir list)) dir baseDir S = listFiles RegExp (Dir list) dir baseDir S"
  using prune_walk [of RegExp baseDir S keep dir 0 list, OF keep]
  by (simp add: listFiles_loop_walk [where depth = 0] split: option.splits)

lemma prune_generateTree:
  assumes keep: "\<And>d n. survives RegExp d baseDir S n \<Longrightarrow> keep d n"
  shows "generateTree RegExp (Dir (prune keep dir list)) dir depth baseDir S =
    generateTree RegExp (Dir list) dir depth baseDir S"
  using prune_walk [of RegExp baseDir S keep dir depth list, OF keep]
  by (simp add: generateTree_loop_walk split: option.splits)

section \<open>The shape of the visits\<close>

lemma slash_free_simps [simp]:
  "slash_free []"
  "slash_free (c # comps) \<longleftrightarrow> CHR ''/'' \<notin> set c \<and> slash_free comps"
  "slash_free (xs @ ys) \<longleftrightarrow> slash_free xs \<and> slash_free ys"
  by (auto simp: slash_free_def)

lemma walk_shape:
  "v \<in> set (walk RegExp dir depth baseDir S list) \<Longrightarrow>
   \<exists>comps. comps \<noteq> [] \<and> v_filePath v = dir @ comps \<and> hd comps \<in> fst ` set list
     \<and> v_file v = last comps \<and> Suc (v_depth v) = depth + length comps
     \<and> (\<forall>k<length comps. survives RegExp (dir @ take k comps) baseDir S (comps ! k))
     \<and> (wf_entries list \<longrightarrow> slash_free comps)"
proof (induction RegExp dir depth baseDir S list rule: walk.induct)
  case (1 RegExp dir depth baseDir S)
  then show ?case by simp
next
  case (2 RegExp dir depth baseDir S name node list)
  let ?here = "\<lparr>v_depth = depth, v_file = name, v_filePath = path_join dir name,
         v_isDirectory = (node \<noteq> File)\<rparr>"
  consider (rest) "v \<in> set (walk RegExp dir depth baseDir S list)"
    | (here) "survives RegExp dir baseDir S name" "v = ?here"
    | (below) entries where "survives RegExp dir baseDir S name" "node = Dir entries"
        "v \<in> set (walk RegExp (path_join dir name) (depth + 1) baseDir S entries)"
    using "2.prems" by (auto split: if_splits fsnode.splits)
  then show ?case
  proof cases
    case rest
    from "2.IH"(2) [OF rest] show ?thesis by auto
  next
    case here
    show ?thesis
      by (rule exI [of _ "[name]"]) (simp add: here path_join_def)
  next
    case below
    from "2.IH"(1) [OF below] obtain comps where c: "comps \<noteq> []"
      "v_filePath v = path_join dir name @ comps" "v_file v = last comps"
      "Suc (v_depth v) = depth + 1 + length comps"
      "\<forall>k<length comps. survives RegExp (path_join dir name @ take k comps) baseDir S (comps ! k)"
      "wf_entries entries \<longrightarrow> slash_free comps"
      by auto
    have "\<forall>k<length (name # comps).
        survives RegExp (dir @ take k (name # comps)) baseDir S ((name # comps) ! k)"
    proof (intro allI impI)
      fix k assume "k < length (name # comps)"
      then show "survives RegExp (dir @ take k (name # comps)) baseDir S ((name # comps) ! k)"
        using c(5) below(1) by (cases k) (auto simp: path_join_def)
    qed
    then show ?thesis
      using c below(2) by (intro exI [of _ "name # comps"]) (simp add: path_join_def)
  qed
qed

section \<open>Relative paths as strings\<close>

lemma strip_common_append: "strip_common base (base @ comps) = ([], comps)"
  by (induction base) simp_all

lemma path_relative_below: "path_relative base (base @ comps) = join_sep comps"
  by (simp add: path_relative_def strip_common_append)

lemma join_sep_Cons: "ys \<noteq> [] \<Longrightarrow> join_sep (x # ys) = x @ CHR ''/'' # join_sep ys"
  by (cases ys) simp_all

lemma join_sep_split:
  "slash_free comps \<Longrightarrow> join_sep comps = a @ CHR ''/'' # r \<Longrightarrow>
   \<exists>k. 0 < k \<and> k < length comps \<and> a = join_sep (take k comps) \<and> r = join_sep (drop k comps)"
proof (induction comps arbitrary: a rule: join_sep.induct)
  case 1
  then show ?case by simp
next
  case (2 x)
  then show ?case by auto
next
  case (3 x y ys)
  from "3.prems"(2) have eq: "x @ CHR ''/'' # join_sep (y # ys) = a @ CHR ''/'' # r" by simp
  then obtain us where us:
    "(x = a @ us \<and> us @ CHR ''/'' # join_sep (y # ys) = CHR ''/'' # r)
     \<or> (x @ us = a \<and> CHR ''/'' # join_sep (y # ys) = us @ CHR ''/'' # r)"
    by (auto simp: append_eq_append_conv2)
  have x: "CHR ''/'' \<notin> set x" using "3.prems"(1) by simp
  show ?case
  proof (cases us)
    case Nil
    with us have "a = x" "r = join_sep (y # ys)" by auto
    then show ?thesis by (intro exI [of _ 1]) simp
  next
    case (Cons u us')
    with us x have u: "u = CHR ''/''" "a = x @ CHR ''/'' # us'" "join_sep (y # ys) = us' @ CHR ''/'' # r"
      by auto
    from "3.IH" [OF _ u(3)] "3.prems"(1) obtain k where k: "0 < k" "k < length (y # ys)"
      "us' = join_sep (take k (y # ys))" "r = join_sep (drop k (y # ys))"
      by auto
    from k(1) have ne: "take k (y # ys) \<noteq> []" by simp
    show ?thesis
      using k u(2) ne by (intro exI [of _ "Suc k"]) (simp add: join_sep_Cons)
  qed
qed

lemma join_sep_has_slash: "2 \<le> length xs \<Longrightarrow> CHR ''/'' \<in> set (join_sep xs)"
  by (induction xs rule: join_sep.induct) simp_all

lemma join_sep_inj:
  "slash_free xs \<Longrightarrow> slash_free ys \<Longrightarrow> xs \<noteq> [] \<Longrightarrow> ys \<noteq> [] \<Longrightarrow>
   join_sep xs = join_sep ys \<Longrightarrow> xs = ys"
proof (induction xs arbitrary: ys rule: join_sep.induct)
  case 1
  then show ?case by simp
next
  case (2 x)
  show ?case
  proof (cases ys)
    case Nil
    with 2 show ?thesis by simp
  next
    case (Cons y ys')
    show ?thesis
    proof (cases ys')
      case Nil
      with Cons 2 show ?thesis by simp
    next
      case (Cons z zs)
      with \<open>ys = y # ys'\<close> "2.prems" have "x = y @ CHR ''/'' # join_sep (z # zs)" by simp
      with "2.prems"(1) show ?thesis by simp
    qed
  qed
next
  case (3 x x' xs)
  from join_sep_split [OF "3.prems"(2), of x "join_sep (x' # xs)"] "3.prems"(5)
  obtain k where k: "0 < k" "k < length ys" "x = join_sep (take k ys)"
    "join_sep (x' # xs) = join_sep (drop k ys)"
    by auto
  have "k = 1"
  proof (rule ccontr)
    assume "k \<noteq> 1"
    with k(1) have "1 < k" by simp
    with k(2) have "2 \<le> length (take k ys)" by simp
    with k(3) have "CHR ''/'' \<in> set x" by (simp only: join_sep_has_slash)
    with "3.prems"(1) show False by simp
  qed
  then obtain y ys' where ys: "ys = y # ys'" "x = y" "join_sep (x' # xs) = join_sep ys'" "ys' \<noteq> []"
    using k by (cases ys) auto
  from "3.IH" [of ys'] "3.prems" ys have "x' # xs = ys'" by simp
  with ys show ?case by simp
qed

section \<open>No path twice\<close>

lemma walk_distinct:
  "wf_entries list \<Longrightarrow> distinct (map v_filePath (walk RegExp dir depth baseDir S list))"
proof (induction RegExp dir depth baseDir S list rule: walk.induct)
  case (1 RegExp dir depth baseDir S)
  then show ?case by simp
next
  case (2 RegExp dir depth baseDir S name node list)
  let ?rest = "walk RegExp dir depth baseDir S list"
  have fresh: "name \<notin> fst ` set list" and wf: "wf_entries list"
    using "2.prems" by simp_all
  have rest: "distinct (map v_filePath ?rest)" using "2.IH"(2) [OF wf] .
  have rest_names: "p \<noteq> dir @ name # more" if "p \<in> v_filePath ` set ?rest" for p more
  proof -
    from that obtain v where v: "v \<in> set ?rest" "p = v_filePath v" by auto
    from walk_shape [OF v(1)] obtain comps where
      "comps \<noteq> []" "v_filePath v = dir @ comps" "hd comps \<in> fst ` set list" by auto
    with fresh v(2) show ?thesis by (cases comps) auto
  qed
  show ?case
  proof (cases "survives RegExp dir baseDir S name")
    case False
    then show ?thesis using rest by simp
  next
    case True
    show ?thesis
    proof (cases node)
      case (Dir entries)
      let ?below = "walk RegExp (path_join dir name) (depth + 1) baseDir S entries"
      have wfe: "wf_entries entries" using "2.prems" Dir by simp
      have below: "distinct (map v_filePath ?below)" using "2.IH"(1) [OF True Dir wfe] .
      have below_names: "\<exists>more. more \<noteq> [] \<and> p = dir @ name # more"
        if "p \<in> v_filePath ` set ?below" for p
      proof -
        from that obtain v where v: "v \<in> set ?below" "p = v_filePath v" by auto
        from walk_shape [OF v(1)] obtain comps where
          "comps \<noteq> []" "v_filePath v = path_join dir name @ comps" by auto
        with v(2) show ?thesis by (auto simp: path_join_def)
      qed
      have "path_join dir name \<notin> v_filePath ` set ?below"
        using below_names by (fastforce simp: path_join_def)
      moreover have "path_join dir name \<notin> v_filePath ` set ?rest"
        using rest_names [of "path_join dir name" "[]"] by (auto simp: path_join_def)
      moreover have "v_filePath ` set ?below \<inter> v_filePath ` set ?rest = {}"
        using below_names rest_names by blast
      ultimately show ?thesis
        using True Dir rest below by simp
    qed (use True rest rest_names [of "path_join dir name" "[]"] in \<open>auto simp: path_join_def\<close>)
  qed
qed

lemma listed_distinct:
  assumes "wf_entries list"
  shows "distinct (listed baseDir (walk RegExp baseDir depth baseDir S list))"
proof -
  let ?W = "walk RegExp baseDir depth baseDir S list"
  let ?F = "filter (\<lambda>v. \<not> v_isDirectory v) ?W"
  have d: "distinct (map v_filePath ?F)"
    using walk_distinct [OF assms, of RegExp baseDir depth baseDir S] by (rule distinct_map_filter)
  have inj: "inj_on (path_relative baseDir) (set (map v_filePath ?F))"
  proof (rule inj_onI)
    fix p q
    assume p: "p \<in> set (map v_filePath ?F)" and q: "q \<in> set (map v_filePath ?F)"
      and eq: "path_relative baseDir p = path_relative baseDir q"
    from p obtain v where "v \<in> set ?W" "p = v_filePath v" by auto
    with walk_shape [of v RegExp baseDir depth baseDir S list] assms
    obtain cs where cs: "cs \<noteq> []" "p = baseDir @ cs" "slash_free cs" by auto
    from q obtain w where "w \<in> set ?W" "q = v_filePath w" by auto
    with walk_shape [of w RegExp baseDir depth baseDir S list] assms
    obtain ds where ds: "ds \<noteq> []" "q = baseDir @ ds" "slash_free ds" by auto
    from eq cs ds have "join_sep cs = join_sep ds" by (simp add: path_relative_below)
    with cs ds have "cs = ds" by (intro join_sep_inj)
    with cs ds show "p = q" by simp
  qed
  have "distinct (map (path_relative baseDir) (map v_filePath ?F))"
    using d inj by (simp only: distinct_map)
  then show ?thesis by (simp add: listed_def comp_def)
qed

section \<open>Ignored and hidden entries\<close>

lemma listed_components:
  assumes "wf_entries entries"
    and "p \<in> set (listed baseDir (walk RegExp baseDir depth baseDir S entries))"
  shows "\<exists>comps. comps \<noteq> [] \<and> slash_free comps \<and> p = join_sep comps
    \<and> (\<forall>k<length comps. \<not> startsWith (comps ! k) ''.''
          \<and> \<not> shouldIgnore RegExp (join_sep (take (Suc k) comps)) S)"
proof -
  from assms(2) obtain v where v: "v \<in> set (walk RegExp baseDir depth baseDir S entries)"
    "p = path_relative baseDir (v_filePath v)"
    by (auto simp: listed_def)
  from walk_shape [OF v(1)] assms(1) obtain comps where c: "comps \<noteq> []"
    "v_filePath v = baseDir @ comps" "slash_free comps"
    "\<forall>k<length comps. survives RegExp (baseDir @ take k comps) baseDir S (comps ! k)"
    by auto
  have "\<not> startsWith (comps ! k) ''.'' \<and> \<not> shouldIgnore RegExp (join_sep (take (Suc k) comps)) S"
    if "k < length comps" for k
  proof -
    have "path_relative baseDir (path_join (baseDir @ take k comps) (comps ! k))
        = join_sep (take (Suc k) comps)"
      using that by (simp add: path_join_def path_relative_below take_Suc_conv_app_nth)
    with c(4) that show ?thesis by (auto simp: survives_def)
  qed
  with c v(2) show ?thesis
    by (intro exI [of _ comps]) (simp add: path_relative_below)
qed

lemma join_sep_not_hidden:
  "\<not> startsWith c ''.'' \<Longrightarrow> \<not> startsWith (join_sep (c # cs)) ''.''"
  by (cases cs; cases c) (simp_all add: startsWith_def)

text \<open>
  C2. An entry whose relative path is ignored is skipped by \<open>listFiles\<close> and by
  \<open>generateTree\<close> without a look at its node, so nothing below it is visited: two
  directories that agree once every ignored entry is removed, with all that lies below
  it, give the same listing and the same rendering, whatever the removed parts hold.
  No listed path is ignored, and none lies below a path that is.
\<close>

theorem ignored_subtree_never_visited:
  "(shouldIgnore RegExp (path_relative baseDir (path_join dir name)) S \<longrightarrow>
      listFiles_loop RegExp dir baseDir S results ((name, node) # list) =
        listFiles_loop RegExp dir baseDir S results list
      \<and> generateTree_loop RegExp dir depth baseDir S tree ((name, node) # list) =
        generateTree_loop RegExp dir depth baseDir S tree list)
   \<and> (without_ignored RegExp baseDir S dir entries = without_ignored RegExp baseDir S dir entries' \<longrightarrow>
      listFiles RegExp (Dir entries) dir baseDir S = listFiles RegExp (Dir entries') dir baseDir S
      \<and> generateTree RegExp (Dir entries) dir depth baseDir S =
          generateTree RegExp (Dir entries') dir depth baseDir S)
   \<and> (wf_entries entries \<and> listFiles RegExp (Dir entries) baseDir baseDir S = Inr files \<and>
        p \<in> set files \<longrightarrow>
      \<not> shouldIgnore RegExp p S \<and> (\<forall>a r. p = a @ ''/'' @ r \<longrightarrow> \<not> shouldIgnore RegExp a S))"
proof (intro conjI impI)
  assume "shouldIgnore RegExp (path_relative baseDir (path_join dir name)) S"
  then have "\<not> survives RegExp dir baseDir S name" by (simp add: survives_def)
  then show "listFiles_loop RegExp dir baseDir S results ((name, node) # list) =
        listFiles_loop RegExp dir baseDir S results list"
    and "generateTree_loop RegExp dir depth baseDir S tree ((name, node) # list) =
        generateTree_loop RegExp dir depth baseDir S tree list"
    by (simp_all add: listFiles_loop_skip generateTree_loop_skip)
next
  let ?keep = "\<lambda>dir file. \<not> shouldIgnore RegExp (path_relative baseDir (path_join dir file)) S"
  have keep: "survives RegExp d baseDir S n \<Longrightarrow> ?keep d n" for d n
    by (simp add: survives_def)
  assume eq: "without_ignored RegExp baseDir S dir entries = without_ignored RegExp baseDir S dir entries'"
  have "listFiles RegExp (Dir entries) dir baseDir S
      = listFiles RegExp (Dir (prune ?keep dir entries)) dir baseDir S"
    using prune_listFiles [of RegExp baseDir S ?keep dir entries, OF keep] by simp
  also have "\<dots> = listFiles RegExp (Dir (prune ?keep dir entries')) dir baseDir S"
    using eq by (simp add: without_ignored_def)
  also have "\<dots> = listFiles RegExp (Dir entries') dir baseDir S"
    using prune_listFiles [of RegExp baseDir S ?keep dir entries', OF keep] by simp
  finally show "listFiles RegExp (Dir entries) dir baseDir S = listFiles RegExp (Dir entries') dir baseDir S" .
  have "generateTree RegExp (Dir entries) dir depth baseDir S
      = generateTree RegExp (Dir (prune ?keep dir entries)) dir depth baseDir S"
    using prune_generateTree [of RegExp baseDir S ?keep dir entries depth, OF keep] by simp
  also have "\<dots> = generateTree RegExp (Dir (prune ?keep dir entries')) dir depth baseDir S"
    using eq by (simp add: without_ignored_def)
  also have "\<dots> = generateTree RegExp (Dir entries') dir depth baseDir S"
    using prune_generateTree [of RegExp baseDir S ?keep dir entries' depth, OF keep] by simp
  finally show "generateTree RegExp (Dir entries) dir depth baseDir S =
          generateTree RegExp (Dir entries') dir depth baseDir S" .
next
  assume a: "wf_entries entries \<and> listFiles RegExp (Dir entries) baseDir baseDir S = Inr files \<and>
        p \<in> set files"
  then have "p \<in> set (listed baseDir (walk RegExp baseDir 0 baseDir S entries))"
    by (auto simp: listFiles_loop_walk [where depth = 0] split: option.splits)
  from listed_components [OF _ this] a obtain comps where c: "comps \<noteq> []" "slash_free comps"
    "p = join_sep comps"
    "\<forall>k<length comps. \<not> shouldIgnore RegExp (join_sep (take (Suc k) comps)) S"
    by auto
  from c(1) c(4) have "\<not> shouldIgnore RegExp (join_sep (take (Suc (length comps - 1)) comps)) S"
    by (metis diff_less length_greater_0_conv zero_less_one)
  with c(1) c(3) show "\<not> shouldIgnore RegExp p S" by simp
  show "\<forall>a r. p = a @ ''/'' @ r \<longrightarrow> \<not> shouldIgnore RegExp a S"
  proof (intro allI impI)
    fix a r assume "p = a @ ''/'' @ r"
    with c(3) have "join_sep comps = a @ CHR ''/'' # r" by simp
    from join_sep_split [OF c(2) this] obtain k where k: "0 < k" "k < length comps"
      "a = join_sep (take k comps)" by auto
    then obtain j where "k = Suc j" "j < length comps" by (cases k) auto
    with c(4) k(3) show "\<not> shouldIgnore RegExp a S" by auto
  qed
qed

theorem ignored_subtree_never_visited_witness:
  "shouldIgnore literal_engine (path_relative [''proj''] (path_join [''proj''] ''node_modules''))
     [''node_modules'']
   \<and> listFiles_loop literal_engine [''proj''] [''proj''] [''node_modules''] []
        [(''node_modules'', Broken EIO)] = Inr []
   \<and> without_ignored literal_engine [''proj''] [''node_modules''] [''proj''] sealed =
       without_ignored literal_engine [''proj''] [''node_modules''] [''proj'']
         [(''.git'', Unreadable EACCES), (''src'', Dir [(''a.txt'', File), (''.hidden'', Broken EIO)])]
   \<and> listFiles literal_engine (Dir sealed) [''proj''] [''proj''] [''node_modules''] =
       listFiles literal_engine
         (Dir [(''.git'', Unreadable EACCES), (''src'', Dir [(''a.txt'', File), (''.hidden'', Broken EIO)])])
         [''proj''] [''proj''] [''node_modules'']
   \<and> wf_entries scenario
   \<and> listFiles literal_engine (Dir scenario) [''proj''] [''proj''] [''node_modules''] = Inr [''src/a.txt'']
   \<and> \<not> shouldIgnore literal_engine ''src'' [''node_modules'']"
proof -
  have i: "shouldIgnore literal_engine (path_relative [''proj''] (path_join [''proj''] ''node_modules''))
     [''node_modules'']"
    by (simp add: path_join_def path_relative_def shouldIgnore_def)
  have w: "without_ignored literal_engine [''proj''] [''node_modules''] [''proj''] sealed =
       without_ignored literal_engine [''proj''] [''node_modules''] [''proj'']
         [(''.git'', Unreadable EACCES), (''src'', Dir [(''a.txt'', File), (''.hidden'', Broken EIO)])]"
    by (simp add: without_ignored_def sealed_def path_join_def path_relative_def shouldIgnore_def
        startsWith_def literal_engine_def plain_char_def)
  have wf: "wf_entries scenario" by (simp add: scenario_def)
  from ignored_subtree_never_visited
    [of literal_engine "[''proj'']" "[''proj'']" "''node_modules''" "[''node_modules'']" "[]"
      "Broken EIO" "[]" 0 "[]" sealed
      "[(''.git'', Unreadable EACCES), (''src'', Dir [(''a.txt'', File), (''.hidden'', Broken EIO)])]"
      "[]" "[]"]
    ignored_subtree_never_visited
    [of literal_engine "[''proj'']" "[''proj'']" "''node_modules''" "[''node_modules'']" "[]"
      "Broken EIO" "[]" 0 "[]" scenario scenario "[''src/a.txt'']" "''src/a.txt''"]
    i w wf scenario_listFiles
  have "listFiles_loop literal_engine [''proj''] [''proj''] [''node_modules''] []
        [(''node_modules'', Broken EIO)] = Inr []"
    and "listFiles literal_engine (Dir sealed) [''proj''] [''proj''] [''node_modules''] =
       listFiles literal_engine
         (Dir [(''.git'', Unreadable EACCES), (''src'', Dir [(''a.txt'', File), (''.hidden'', Broken EIO)])])
         [''proj''] [''proj''] [''node_modules'']"
    and "\<forall>a r. ''src/a.txt'' = a @ ''/'' @ r \<longrightarrow> \<not> shouldIgnore literal_engine a [''node_modules'']"
    by simp_all
  moreover from this(3) have "\<not> shouldIgnore literal_engine ''src'' [''node_modules'']"
    by (elim allE [of _ "''src''"] allE [of _ "''a.txt''"]) simp
  ultimately show ?thesis using i w wf scenario_listFiles by simp
qed

lemma walk_not_hidden:
  assumes "v \<in> set (walk RegExp dir depth baseDir S list)"
  shows "\<not> startsWith (v_file v) ''.''"
proof -
  from walk_shape [OF assms] obtain comps where c: "comps \<noteq> []" "v_file v = last comps"
    "\<forall>k<length comps. survives RegExp (dir @ take k comps) baseDir S (comps ! k)"
    by auto
  from c(1) c(3) have "survives RegExp (dir @ take (length comps - 1) comps) baseDir S
      (comps ! (length comps - 1))"
    by (metis diff_less length_greater_0_conv zero_less_one)
  with c(1) c(2) show ?thesis by (simp add: survives_def last_conv_nth)
qed

text \<open>
  C5. An entry whose name begins with a dot is skipped by \<open>listFiles\<close> and by
  \<open>generateTree\<close> for every pattern set and without a look at its node: two directories
  that agree once the hidden entries are removed, with all that lies below them, give
  the same listing and the same rendering. No listed path has a component that begins
  with a dot, and no rendered line names a hidden entry.
\<close>

theorem hidden_entries_skipped:
  "(startsWith name ''.'' \<longrightarrow>
      listFiles_loop RegExp dir baseDir S results ((name, node) # list) =
        listFiles_loop RegExp dir baseDir S results list
      \<and> generateTree_loop RegExp dir depth baseDir S tree ((name, node) # list) =
        generateTree_loop RegExp dir depth baseDir S tree list)
   \<and> (without_hidden dir entries = without_hidden dir entries' \<longrightarrow>
      listFiles RegExp (Dir entries) dir baseDir S = listFiles RegExp (Dir entries') dir baseDir S
      \<and> generateTree RegExp (Dir entries) dir depth baseDir S =
          generateTree RegExp (Dir entries') dir depth baseDir S)
   \<and> (wf_entries entries \<and> listFiles RegExp (Dir entries) baseDir baseDir S = Inr files \<and>
        p \<in> set files \<longrightarrow>
      \<not> startsWith p ''.'' \<and> (\<forall>a r. p \<noteq> a @ ''/.'' @ r))
   \<and> (generateTree RegExp (Dir entries) dir depth baseDir S = Inr text \<longrightarrow>
      (\<exists>W. text = concat (map render W) \<and> (\<forall>v\<in>set W. \<not> startsWith (v_file v) ''.'')))"
proof (intro conjI impI)
  assume "startsWith name ''.''"
  then have "\<not> survives RegExp dir baseDir S name" by (simp add: survives_def)
  then show "listFiles_loop RegExp dir baseDir S results ((name, node) # list) =
        listFiles_loop RegExp dir baseDir S results list"
    and "generateTree_loop RegExp dir depth baseDir S tree ((name, node) # list) =
        generateTree_loop RegExp dir depth baseDir S tree list"
    by (simp_all add: listFiles_loop_skip generateTree_loop_skip)
next
  let ?keep = "\<lambda>dir file. \<not> startsWith file ''.''"
  have keep: "survives RegExp d baseDir S n \<Longrightarrow> ?keep d n" for d :: path and n
    by (simp add: survives_def)
  assume eq: "without_hidden dir entries = without_hidden dir entries'"
  have "listFiles RegExp (Dir entries) dir baseDir S
      = listFiles RegExp (Dir (prune ?keep dir entries)) dir baseDir S"
    using prune_listFiles [of RegExp baseDir S ?keep dir entries, OF keep] by simp
  also have "\<dots> = listFiles RegExp (Dir (prune ?keep dir entries')) dir baseDir S"
    using eq by (simp add: without_hidden_def)
  also have "\<dots> = listFiles RegExp (Dir entries') dir baseDir S"
    using prune_listFiles [of RegExp baseDir S ?keep dir entries', OF keep] by simp
  finally show "listFiles RegExp (Dir entries) dir baseDir S = listFiles RegExp (Dir entries') dir baseDir S" .
  have "generateTree RegExp (Dir entries) dir depth baseDir S
      = generateTree RegExp (Dir (prune ?keep dir entries)) dir depth baseDir S"
    using prune_generateTree [of RegExp baseDir S ?keep dir entries depth, OF keep] by simp
  also have "\<dots> = generateTree RegExp (Dir (prune ?keep dir entries')) dir depth baseDir S"
    using eq by (simp add: without_hidden_def)
  also have "\<dots> = generateTree RegExp (Dir entries') dir depth baseDir S"
    using prune_generateTree [of RegExp baseDir S ?keep dir entries' depth, OF keep] by simp
  finally show "generateTree RegExp (Dir entries) dir depth baseDir S =
          generateTree RegExp (Dir entries') dir depth baseDir S" .
next
  assume a: "wf_entries entries \<and> listFiles RegExp (Dir entries) baseDir baseDir S = Inr files \<and>
        p \<in> set files"
  then have "p \<in> set (listed baseDir (walk RegExp baseDir 0 baseDir S entries))"
    by (auto simp: listFiles_loop_walk [where depth = 0] split: option.splits)
  from listed_components [OF _ this] a obtain comps where c: "comps \<noteq> []" "slash_free comps"
    "p = join_sep comps" "\<forall>k<length comps. \<not> startsWith (comps ! k) ''.''"
    by auto
  from c(1) c(4) have "\<not> startsWith (hd comps) ''.''"
    by (cases comps) auto
  with c(1) c(3) show "\<not> startsWith p ''.''"
    by (cases comps) (simp_all add: join_sep_not_hidden)
  show "\<forall>a r. p \<noteq> a @ ''/.'' @ r"
  proof (intro allI notI)
    fix a r assume "p = a @ ''/.'' @ r"
    with c(3) have "join_sep comps = a @ CHR ''/'' # (CHR ''.'' # r)" by simp
    from join_sep_split [OF c(2) this] obtain k where k: "k < length comps"
      "CHR ''.'' # r = join_sep (drop k comps)" by auto
    from k(1) have "drop k comps = comps ! k # drop (Suc k) comps"
      by (simp add: Cons_nth_drop_Suc)
    with k(2) have "startsWith (join_sep (comps ! k # drop (Suc k) comps)) ''.''"
      by (metis append_Cons append_Nil startsWith_prefix prefixI)
    with c(4) k(1) show False using join_sep_not_hidden by blast
  qed
next
  assume "generateTree RegExp (Dir entries) dir depth baseDir S = Inr text"
  then have "text = concat (map render (walk RegExp dir depth baseDir S entries))"
    by (auto simp: generateTree_loop_walk split: option.splits)
  then show "\<exists>W. text = concat (map render W) \<and> (\<forall>v\<in>set W. \<not> startsWith (v_file v) ''.'')"
    using walk_not_hidden by blast
qed

theorem hidden_entries_skipped_witness:
  "startsWith ''.git'' ''.''
   \<and> listFiles_loop literal_engine [''proj''] [''proj''] [] [] [(''.git'', Unreadable EACCES)] = Inr []
   \<and> generateTree_loop literal_engine [''proj''] 0 [''proj''] [] [] [(''.git'', Unreadable EACCES)] = Inr []
   \<and> without_hidden [''proj''] sealed =
       without_hidden [''proj''] [(''src'', Dir [(''a.txt'', File)]), (''node_modules'', Broken EIO)]
   \<and> listFiles literal_engine (Dir sealed) [''proj''] [''proj''] [] =
       listFiles literal_engine
         (Dir [(''src'', Dir [(''a.txt'', File)]), (''node_modules'', Broken EIO)])
         [''proj''] [''proj''] []
   \<and> wf_entries scenario
   \<and> listFiles literal_engine (Dir scenario) [''proj''] [''proj''] [''node_modules''] = Inr [''src/a.txt'']
   \<and> \<not> startsWith ''src/a.txt'' ''.''"
proof -
  have h: "startsWith ''.git'' ''.''" by (simp add: startsWith_def)
  have w: "without_hidden [''proj''] sealed =
       without_hidden [''proj''] [(''src'', Dir [(''a.txt'', File)]), (''node_modules'', Broken EIO)]"
    by (simp add: without_hidden_def sealed_def startsWith_def)
  have wf: "wf_entries scenario" by (simp add: scenario_def)
  from hidden_entries_skipped
    [of "''.git''" literal_engine "[''proj'']" "[''proj'']" "[]" "[]" "Unreadable EACCES" "[]" 0 "[]"
      sealed "[(''src'', Dir [(''a.txt'', File)]), (''node_modules'', Broken EIO)]" "[]" "[]" "[]"]
    hidden_entries_skipped
    [of "''.git''" literal_engine "[''proj'']" "[''proj'']" "[''node_modules'']" "[]"
      "Unreadable EACCES" "[]" 0 "[]" scenario scenario "[''src/a.txt'']" "''src/a.txt''" "[]"]
    h w wf scenario_listFiles
  show ?thesis by simp
qed

section \<open>The flat listing\<close>

text \<open>
  C6. \<open>listFiles\<close> goes through the directory's listing in its order, from an empty
  result: an entry that does not survive adds nothing, a surviving file adds its path
  relative to the root, a surviving directory adds the listing of its own entries. The
  result is the relative paths of the files among the visits of the walk, in the
  order of the walk. When the names of every directory are distinct and hold no
  separator, as a directory listing's names are, no path occurs twice in the listing
  of the root.
\<close>

theorem listFiles_depth_first:
  "listFiles RegExp (Dir entries) dir baseDir S = listFiles_loop RegExp dir baseDir S [] entries
   \<and> listFiles_loop RegExp dir baseDir S results [] = Inr results
   \<and> (\<not> survives RegExp dir baseDir S name \<longrightarrow>
        listFiles_loop RegExp dir baseDir S results ((name, node) # list) =
          listFiles_loop RegExp dir baseDir S results list)
   \<and> (survives RegExp dir baseDir S name \<and> stat node = Inr False \<longrightarrow>
        listFiles_loop RegExp dir baseDir S results ((name, node) # list) =
          listFiles_loop RegExp dir baseDir S
            (results @ [path_relative baseDir (path_join dir name)]) list)
   \<and> (survives RegExp dir baseDir S name \<and> stat node = Inr True \<and>
        listFiles RegExp node (path_join dir name) baseDir S = Inr sub \<longrightarrow>
        listFiles_loop RegExp dir baseDir S results ((name, node) # list) =
          listFiles_loop RegExp dir baseDir S (results @ sub) list)
   \<and> (listFiles RegExp (Dir entries) dir baseDir S = Inr files \<longrightarrow>
        files = map (\<lambda>v. path_relative baseDir (v_filePath v))
                  (filter (\<lambda>v. \<not> v_isDirectory v) (walk RegExp dir 0 baseDir S entries)))
   \<and> (wf_entries entries \<and> listFiles RegExp (Dir entries) baseDir baseDir S = Inr files \<longrightarrow>
        distinct files)"
proof (intro conjI impI)
  assume "listFiles RegExp (Dir entries) dir baseDir S = Inr files"
  then show "files = map (\<lambda>v. path_relative baseDir (v_filePath v))
                  (filter (\<lambda>v. \<not> v_isDirectory v) (walk RegExp dir 0 baseDir S entries))"
    by (auto simp: listFiles_loop_walk [where depth = 0] listed_def split: option.splits)
next
  assume a: "wf_entries entries \<and> listFiles RegExp (Dir entries) baseDir baseDir S = Inr files"
  then have "files = listed baseDir (walk RegExp baseDir 0 baseDir S entries)"
    by (auto simp: listFiles_loop_walk [where depth = 0] split: option.splits)
  with a show "distinct files" by (simp add: listed_distinct)
qed (simp_all add: listFiles_loop_skip listFiles_loop_visit)

theorem listFiles_depth_first_witness:
  "survives literal_engine [''proj''] [''proj''] [''node_modules''] ''src''
   \<and> stat (Dir [(''a.txt'', File), (''.hidden'', File)]) = Inr True
   \<and> listFiles literal_engine (Dir [(''a.txt'', File), (''.hidden'', File)])
        (path_join [''proj''] ''src'') [''proj''] [''node_modules''] = Inr [''src/a.txt'']
   \<and> listFiles_loop literal_engine [''proj''] [''proj''] [''node_modules''] [''README'']
        [(''src'', Dir [(''a.txt'', File), (''.hidden'', File)]), (''b'', File)]
       = Inr [''README'', ''src/a.txt'', ''b'']
   \<and> wf_entries scenario
   \<and> listFiles literal_engine (Dir scenario) [''proj''] [''proj''] [''node_modules''] = Inr [''src/a.txt'']
   \<and> distinct [''src/a.txt'']"
proof -
  have s: "survives literal_engine [''proj''] [''proj''] [''node_modules''] ''src''"
    by (simp add: survives_def startsWith_def path_join_def path_relative_def
        shouldIgnore_def literal_engine_def plain_char_def)
  have st: "stat (Dir [(''a.txt'', File), (''.hidden'', File)]) = Inr True" by simp
  have sub: "listFiles literal_engine (Dir [(''a.txt'', File), (''.hidden'', File)])
        (path_join [''proj''] ''src'') [''proj''] [''node_modules''] = Inr [''src/a.txt'']"
    by (simp add: listFiles_loop.simps startsWith_def path_join_def path_relative_def
      shouldIgnore_def literal_engine_def plain_char_def Let_def)
  have rest: "listFiles_loop literal_engine [''proj''] [''proj''] [''node_modules'']
      [''README'', ''src/a.txt''] [(''b'', File)] = Inr [''README'', ''src/a.txt'', ''b'']"
    by (simp add: listFiles_loop.simps startsWith_def path_join_def path_relative_def
      shouldIgnore_def literal_engine_def plain_char_def Let_def)
  have wf: "wf_entries scenario" by (simp add: scenario_def)
  note T = listFiles_depth_first
    [of literal_engine scenario "[''proj'']" "[''proj'']" "[''node_modules'']" "[''README'']"
      "''src''" "Dir [(''a.txt'', File), (''.hidden'', File)]" "[(''b'', File)]"
      "[''src/a.txt'']" "[''src/a.txt'']"]
  from T wf scenario_listFiles have d: "distinct [''src/a.txt'']" by blast
  from T s st sub have "listFiles_loop literal_engine [''proj''] [''proj''] [''node_modules'']
      [''README''] [(''src'', Dir [(''a.txt'', File), (''.hidden'', File)]), (''b'', File)]
    = listFiles_loop literal_engine [''proj''] [''proj''] [''node_modules'']
      ([''README''] @ [''src/a.txt'']) [(''b'', File)]"
    by blast
  with rest have "listFiles_loop literal_engine [''proj''] [''proj''] [''node_modules'']
      [''README''] [(''src'', Dir [(''a.txt'', File), (''.hidden'', File)]), (''b'', File)]
    = Inr [''README'', ''src/a.txt'', ''b'']"
    by simp
  with s st sub wf scenario_listFiles d show ?thesis by blast
qed

section \<open>The listing and the rendering together\<close>

lemma leaf_lines_Cons:
  "leaf_lines (a # xs) \<longleftrightarrow>
     (xs = [] \<or> v_isDirectory a \<or> v_depth (hd xs) \<le> v_depth a) \<and> leaf_lines xs"
  by (cases xs) auto

lemma leaf_lines_append:
  "leaf_lines (xs @ ys) \<longleftrightarrow>
     leaf_lines xs \<and> leaf_lines ys \<and>
     (xs = [] \<or> ys = [] \<or> v_isDirectory (last xs) \<or> v_depth (hd ys) \<le> v_depth (last xs))"
proof (induction xs)
  case Nil
  then show ?case by simp
next
  case (Cons a xs)
  show ?case
  proof (cases xs)
    case Nil
    then show ?thesis by (cases ys) auto
  next
    case (Cons b rest)
    with Cons.IH show ?thesis by auto
  qed
qed

lemma walk_depth_ge:
  assumes "v \<in> set (walk RegExp dir depth baseDir S list)"
  shows "depth \<le> v_depth v"
  using walk_shape [OF assms]
proof (elim exE conjE)
  fix comps :: "string list"
  assume "comps \<noteq> []" "Suc (v_depth v) = depth + length comps"
  then show ?thesis by (cases comps) simp_all
qed

lemma walk_hd_depth:
  "walk RegExp dir depth baseDir S list \<noteq> [] \<Longrightarrow>
   v_depth (hd (walk RegExp dir depth baseDir S list)) = depth"
proof (induction list)
  case Nil
  then show ?case by simp
next
  case (Cons entry list)
  obtain name node where entry: "entry = (name, node)" by (cases entry)
  show ?case
  proof (cases "survives RegExp dir baseDir S name")
    case True
    then show ?thesis by (simp add: entry)
  next
    case False
    with Cons show ?thesis by (simp add: entry)
  qed
qed

lemma walk_leaf_lines: "leaf_lines (walk RegExp dir depth baseDir S list)"
proof (induction RegExp dir depth baseDir S list rule: walk.induct)
  case (1 RegExp dir depth baseDir S)
  then show ?case by simp
next
  case (2 RegExp dir depth baseDir S name node list)
  let ?rest = "walk RegExp dir depth baseDir S list"
  have rest: "leaf_lines ?rest" by (rule "2.IH"(2))
  have hd_rest: "?rest = [] \<or> v_depth (hd ?rest) = depth"
    using walk_hd_depth [of RegExp dir depth baseDir S list] by blast
  show ?case
  proof (cases "survives RegExp dir baseDir S name")
    case False
    then show ?thesis using rest by simp
  next
    case True
    show ?thesis
    proof (cases node)
      case (Dir entries)
      let ?below = "walk RegExp (path_join dir name) (depth + 1) baseDir S entries"
      have below: "leaf_lines ?below" by (rule "2.IH"(1) [OF True Dir])
      have "depth \<le> v_depth (last ?below)" if "?below \<noteq> []"
        using walk_depth_ge [of "last ?below" RegExp "path_join dir name" "depth + 1" baseDir S entries]
          that by simp
      with hd_rest have "leaf_lines (?below @ ?rest)"
        using below rest by (auto simp: leaf_lines_append)
      then show ?thesis using True Dir by (simp add: leaf_lines_Cons)
    next
      case File
      then show ?thesis using True rest hd_rest by (auto simp: leaf_lines_Cons)
    next
      case (Unreadable err)
      then show ?thesis using True rest by (simp add: leaf_lines_Cons)
    next
      case (Broken err)
      then show ?thesis using True rest by (simp add: leaf_lines_Cons)
    qed
  qed
qed

lemma walk_survivor:
  assumes "v \<in> set (walk RegExp dir depth baseDir S list)"
  shows "\<not> shouldIgnore RegExp (path_relative baseDir (v_filePath v)) S
    \<and> v_file v = last (v_filePath v)
    \<and> length (v_filePath v) = length dir + (v_depth v - depth) + 1"
  using walk_shape [OF assms]
proof (elim exE conjE)
  fix comps :: "string list"
  assume c: "comps \<noteq> []" "v_filePath v = dir @ comps"
    "v_file v = last comps" "Suc (v_depth v) = depth + length comps"
    "\<forall>k<length comps. survives RegExp (dir @ take k comps) baseDir S (comps ! k)"
  from c(1) have pos: "length comps - 1 < length comps" by simp
  from c(5) pos have sv: "survives RegExp (dir @ take (length comps - 1) comps) baseDir S
      (comps ! (length comps - 1))"
    by (simp only:)
  have whole: "take (length comps - 1) comps @ [comps ! (length comps - 1)] = comps"
    using c(1) by (simp add: take_Suc_conv_app_nth [symmetric])
  have "path_relative baseDir (path_join (dir @ take (length comps - 1) comps)
      (comps ! (length comps - 1))) = path_relative baseDir (dir @ comps)"
    unfolding path_join_def append_assoc whole ..
  with sv have ni: "\<not> shouldIgnore RegExp (path_relative baseDir (dir @ comps)) S"
    by (simp only: survives_def) simp
  from pos c(4) have len: "length comps = v_depth v - depth + 1" by arith
  have "last (dir @ comps) = last comps" using c(1) by simp
  with ni len show ?thesis
    unfolding c(2) c(3) by simp
qed

lemma walk_file_visits:
  "p \<in> set (listed baseDir W) \<longleftrightarrow>
     (\<exists>v\<in>set W. \<not> v_isDirectory v \<and> path_relative baseDir (v_filePath v) = p)"
  by (auto simp: listed_def)

text \<open>
  C3. The listing and the rendering of a directory agree. Both fail with the same
  error or both succeed; when they succeed, the rendering is the lines of the visits
  of one walk, and a path is in the listing exactly when a file among these visits
  has it as its relative path. Each visit is of an entry that is neither hidden nor
  ignored, its line shows the last component of its path at the depth of that
  component below the directory, and the line of a file is followed by no deeper line.
\<close>

theorem listing_tree_consistent:
  "(listFiles RegExp (Dir entries) dir baseDir S = Inl err \<longleftrightarrow>
      generateTree RegExp (Dir entries) dir depth baseDir S = Inl err)
   \<and> (listFiles RegExp (Dir entries) dir baseDir S = Inr files \<longrightarrow>
        generateTree RegExp (Dir entries) dir depth baseDir S =
          Inr (concat (map render (walk RegExp dir depth baseDir S entries)))
        \<and> (\<forall>p. p \<in> set files \<longleftrightarrow>
              (\<exists>v\<in>set (walk RegExp dir depth baseDir S entries).
                 \<not> v_isDirectory v \<and> path_relative baseDir (v_filePath v) = p))
        \<and> (\<forall>v\<in>set (walk RegExp dir depth baseDir S entries).
              \<not> startsWith (v_file v) ''.''
              \<and> \<not> shouldIgnore RegExp (path_relative baseDir (v_filePath v)) S
              \<and> v_file v = last (v_filePath v)
              \<and> length (v_filePath v) = length dir + (v_depth v - depth) + 1
              \<and> depth \<le> v_depth v)
        \<and> leaf_lines (walk RegExp dir depth baseDir S entries))"
proof (intro conjI impI)
  show "listFiles RegExp (Dir entries) dir baseDir S = Inl err \<longleftrightarrow>
      generateTree RegExp (Dir entries) dir depth baseDir S = Inl err"
    by (simp add: listFiles_loop_walk [where depth = depth] generateTree_loop_walk
        split: option.splits)
next
  assume ok: "listFiles RegExp (Dir entries) dir baseDir S = Inr files"
  then have none: "first_failure RegExp dir baseDir S entries = None"
    and files: "files = listed baseDir (walk RegExp dir depth baseDir S entries)"
    by (auto simp: listFiles_loop_walk [where depth = depth] split: option.splits)
  from none show "generateTree RegExp (Dir entries) dir depth baseDir S =
          Inr (concat (map render (walk RegExp dir depth baseDir S entries)))"
    by (simp add: generateTree_loop_walk)
  show "\<forall>p. p \<in> set files \<longleftrightarrow>
              (\<exists>v\<in>set (walk RegExp dir depth baseDir S entries).
                 \<not> v_isDirectory v \<and> path_relative baseDir (v_filePath v) = p)"
    unfolding files by (simp only: walk_file_visits) simp
  show "\<forall>v\<in>set (walk RegExp dir depth baseDir S entries).
              \<not> startsWith (v_file v) ''.''
              \<and> \<not> shouldIgnore RegExp (path_relative baseDir (v_filePath v)) S
              \<and> v_file v = last (v_filePath v)
              \<and> length (v_filePath v) = length dir + (v_depth v - depth) + 1
              \<and> depth \<le> v_depth v"
    using walk_not_hidden walk_survivor walk_depth_ge by (intro ballI conjI) blast+
  show "leaf_lines (walk RegExp dir depth baseDir S entries)"
    by (rule walk_leaf_lines)
qed

lemma scenario_walk:
  "walk literal_engine [''proj''] 0 [''proj''] [''node_modules''] scenario =
     [\<lparr>v_depth = 0, v_file = ''src'', v_filePath = [''proj'', ''src''], v_isDirectory = True\<rparr>,
      \<lparr>v_depth = 1, v_file = ''a.txt'', v_filePath = [''proj'', ''src'', ''a.txt''],
         v_isDirectory = False\<rparr>]"
  by (simp add: scenario_def survives_def startsWith_def path_join_def path_relative_def
      shouldIgnore_def literal_engine_def plain_char_def)

theorem listing_tree_consistent_witness:
  "listFiles literal_engine (Dir scenario) [''proj''] [''proj''] [''node_modules''] = Inr [''src/a.txt'']
   \<and> generateTree literal_engine (Dir scenario) [''proj''] 0 [''proj''] [''node_modules'']
       = Inr (''- src'' @ [LF] @ ''  - a.txt'' @ [LF])
   \<and> concat (map render (walk literal_engine [''proj''] 0 [''proj''] [''node_modules''] scenario))
       = ''- src'' @ [LF] @ ''  - a.txt'' @ [LF]
   \<and> (\<exists>v\<in>set (walk literal_engine [''proj''] 0 [''proj''] [''node_modules''] scenario).
         \<not> v_isDirectory v \<and> path_relative [''proj''] (v_filePath v) = ''src/a.txt'')
   \<and> leaf_lines (walk literal_engine [''proj''] 0 [''proj''] [''node_modules''] scenario)"
proof -
  note T = listing_tree_consistent
    [of literal_engine scenario "[''proj'']" "[''proj'']" "[''node_modules'']" EIO 0 "[''src/a.txt'']"]
  from T scenario_listFiles
  have t: "generateTree literal_engine (Dir scenario) [''proj''] 0 [''proj''] [''node_modules''] =
      Inr (concat (map render (walk literal_engine [''proj''] 0 [''proj''] [''node_modules''] scenario)))"
    and m: "\<forall>p. p \<in> set [''src/a.txt''] \<longleftrightarrow>
        (\<exists>v\<in>set (walk literal_engine [''proj''] 0 [''proj''] [''node_modules''] scenario).
           \<not> v_isDirectory v \<and> path_relative [''proj''] (v_filePath v) = p)"
    and l: "leaf_lines (walk literal_engine [''proj''] 0 [''proj''] [''node_modules''] scenario)"
    by blast+
  have r: "concat (map render (walk literal_engine [''proj''] 0 [''proj''] [''node_modules''] scenario))
       = ''- src'' @ [LF] @ ''  - a.txt'' @ [LF]"
    by (simp add: scenario_walk render_def numeral_2_eq_2)
  from m have e: "\<exists>v\<in>set (walk literal_engine [''proj''] 0 [''proj''] [''node_modules''] scenario).
         \<not> v_isDirectory v \<and> path_relative [''proj''] (v_filePath v) = ''src/a.txt''"
    by (rule allE [of _ "''src/a.txt''"]) simp
  from t r have "generateTree literal_engine (Dir scenario) [''proj''] 0 [''proj''] [''node_modules'']
       = Inr (''- src'' @ [LF] @ ''  - a.txt'' @ [LF])"
    by (simp only:)
  with scenario_listFiles r e l show ?thesis by blast
qed

text \<open>
  A directory without surviving entries is rendered as a line with nothing below it
  as well, and adds nothing to the listing.
\<close>

lemma empty_directory_is_a_leaf_line:
  "listFiles literal_engine (Dir [(''docs'', Dir [(''.keep'', File)])]) [''proj''] [''proj''] [] = Inr []
   \<and> generateTree literal_engine (Dir [(''docs'', Dir [(''.keep'', File)])]) [''proj''] 0 [''proj''] []
       = Inr (''- docs'' @ [LF])"
  by (simp add: listFiles_loop.simps generateTree_loop.simps startsWith_def path_join_def
      path_relative_def shouldIgnore_def Let_def repeat_def)

end
